theory Spec2Isabelle
  imports Main "HOL-Library.AList" "HOL-Library.List_Lexorder"
begin

section \<open>Python strings\<close>

text \<open>
  A Python \<open>str\<close> is a sequence of Unicode code points. A code point is a natural
  number here, so \<open>len\<close> is \<open>length\<close> and comparison of strings is the
  lexicographic order of the code points, as in Python. \<open>str ''abc''\<close> writes a
  literal.
\<close>

type_synonym pystr = "nat list"

definition str :: "string \<Rightarrow> pystr" where
  "str s = map of_char s"

text \<open>
  The exceptions the modelled functions can raise. \<open>OSError_ELOOP\<close> is the plain
  \<open>OSError\<close> Python raises for errno ELOOP.
\<close>

datatype error =
    AssertionError
  | KeyError
  | IndexError
  | ValueError
  | FileNotFoundError
  | FileExistsError
  | NotADirectoryError
  | IsADirectoryError
  | OSError_ELOOP

text \<open>
  \<open>str.isspace\<close> for one code point: the characters \<open>str.strip()\<close> removes.
\<close>

definition py_isspace :: "nat \<Rightarrow> bool" where
  "py_isspace c =
     (if 8192 \<le> c \<and> c \<le> 8202 then True
      else c \<in> set [9, 10, 11, 12, 13, 28, 29, 30, 31, 32, 133, 160,
                     5760, 8232, 8233, 8239, 8287, 12288])"

definition lstrip :: "pystr \<Rightarrow> pystr" where
  "lstrip s = dropWhile py_isspace s"

definition rstrip :: "pystr \<Rightarrow> pystr" where
  "rstrip s = rev (dropWhile py_isspace (rev s))"

definition strip :: "pystr \<Rightarrow> pystr" where
  "strip s = rstrip (lstrip s)"

text \<open>\<open>s.replace(old, new)\<close> for a one-character \<open>old\<close>.\<close>

definition replace :: "nat \<Rightarrow> pystr \<Rightarrow> pystr \<Rightarrow> pystr" where
  "replace old new s = concat (map (\<lambda>c. if c = old then new else [c]) s)"

text \<open>
  \<open>s[i]\<close>: a negative index counts from the end, an index out of range raises
  \<open>IndexError\<close>.
\<close>

definition py_index :: "pystr \<Rightarrow> int \<Rightarrow> error + nat" where
  "py_index s i =
     (if 0 \<le> i \<and> i < int (length s) then Inr (s ! nat i)
      else if i < 0 \<and> - int (length s) \<le> i then Inr (s ! nat (int (length s) + i))
      else Inl IndexError)"

section \<open>BibTeX records and \<open>canonicalize_bibtex\<close>\<close>

text \<open>
  An entry of \<open>bibtex.entries\<close> is a Python dict from field names to strings. A dict
  keeps its keys in insertion order and assigning to a key that is present keeps the
  key's place: that is \<open>AList.update\<close> on an association list. Reading a key that is
  absent raises \<open>KeyError\<close>.
\<close>

type_synonym entry = "(pystr \<times> pystr) list"

definition getitem :: "entry \<Rightarrow> pystr \<Rightarrow> error + pystr" where
  "getitem bib k = (case map_of bib k of None \<Rightarrow> Inl KeyError | Some v \<Rightarrow> Inr v)"

definition setitem :: "entry \<Rightarrow> pystr \<Rightarrow> pystr \<Rightarrow> entry" where
  "setitem bib k v = AList.update k v bib"

text \<open>
  The body of the loop of \<open>canonicalize_bibtex\<close> (lines 189 to 213) on the entry
  \<open>bib\<close>, with the flag \<open>updated\<close> as it stands before the iteration. The entry is
  mutated in place, so the entry is returned also when an exception leaves the body:
  the fields assigned before the exception stay assigned. The messages printed when
  \<open>verbosity > 1\<close> change neither the record nor the result and are left out, and
  with them the parameter \<open>verbosity\<close>.
\<close>

definition canonicalize_entry :: "pystr \<Rightarrow> entry \<Rightarrow> bool \<Rightarrow> (error + bool) \<times> entry" where
  "canonicalize_entry ck bib0 updated0 =
     (case getitem bib0 (str ''ID'') of
        Inl e \<Rightarrow> (Inl e, bib0)
      | Inr bck \<Rightarrow>
          let bib1 = (if bck \<noteq> ck then setitem bib0 (str ''ID'') ck else bib0);
              updated1 = (if bck \<noteq> ck then True else updated0)
          in
          (case getitem bib1 (str ''author'') of
             Inl e \<Rightarrow> (Inl e, bib1)
           | Inr a \<Rightarrow>
               let author = strip (replace 10 [32] (replace 13 [] a));
                   bib2 = (if a \<noteq> author then setitem bib1 (str ''author'') author else bib1);
                   updated2 = (if a \<noteq> author then True else updated1)
               in
               (case getitem bib2 (str ''title'') of
                  Inl e \<Rightarrow> (Inl e, bib2)
                | Inr t \<Rightarrow>
                    let title = strip t in
                    (case py_index title 0 of
                       Inl e \<Rightarrow> (Inl e, bib2)
                     | Inr c0 \<Rightarrow>
                         (case (if c0 \<noteq> 123
                                then py_index title (int (length title) - 1)
                                else Inr 125) of
                            Inl e \<Rightarrow> (Inl e, bib2)
                          | Inr c1 \<Rightarrow>
                              let title' = (if c0 \<noteq> 123 \<and> c1 \<noteq> 125
                                            then [123] @ title @ [125] else title);
                                  bib3 = (if t \<noteq> title'
                                          then setitem bib2 (str ''title'') title' else bib2);
                                  updated3 = (if t \<noteq> title' then True else updated2)
                              in (Inr updated3, bib3))))))"

text \<open>
  The loop \<open>for i in range(len(bibtex.entries))\<close>: \<open>is\<close> are the indices still to
  visit. An exception of the body ends the loop.
\<close>

fun canonicalize_loop ::
  "pystr \<Rightarrow> nat list \<Rightarrow> entry list \<Rightarrow> bool \<Rightarrow> (error + bool) \<times> entry list" where
  "canonicalize_loop ck [] entries updated = (Inr updated, entries)"
| "canonicalize_loop ck (i # is) entries updated =
     (case canonicalize_entry ck (entries ! i) updated of
        (Inl e, bib) \<Rightarrow> (Inl e, entries[i := bib])
      | (Inr updated', bib) \<Rightarrow> canonicalize_loop ck is (entries[i := bib]) updated')"

text \<open>
  \<open>canonicalize_bibtex(ck, bibtex, verbosity)\<close> (lines 184 to 217): the first
  \<open>assert\<close> refuses every record that has not exactly one entry. The closing
  \<open>assert type(bib['ID']) == str\<close> cannot fail here, where every field is a string.
  The result is what the call returns or raises, and \<open>bibtex.entries\<close> after it.
\<close>

definition canonicalize_bibtex :: "pystr \<Rightarrow> entry list \<Rightarrow> (error + bool) \<times> entry list" where
  "canonicalize_bibtex ck entries =
     (if length entries \<noteq> 1 then (Inl AssertionError, entries)
      else canonicalize_loop ck [0..<length entries] entries False)"

section \<open>Path names: \<open>posixpath\<close>\<close>

text \<open>\<open>s.split(sep)\<close> for a one-character separator: never the empty list.\<close>

fun split_on :: "nat \<Rightarrow> pystr \<Rightarrow> pystr list" where
  "split_on sep [] = [[]]"
| "split_on sep (c # cs) =
     (if c = sep then [] # split_on sep cs
      else (case split_on sep cs of [] \<Rightarrow> [[c]] | x # xs \<Rightarrow> (c # x) # xs))"

text \<open>\<open>sep.join(xs)\<close>.\<close>

fun sep_join :: "pystr \<Rightarrow> pystr list \<Rightarrow> pystr" where
  "sep_join sep [] = []"
| "sep_join sep [x] = x"
| "sep_join sep (x # y # ys) = x @ sep @ sep_join sep (y # ys)"

text \<open>\<open>s.rfind(c)\<close> for a one-character \<open>c\<close>: the last index of \<open>c\<close>, or -1.\<close>

definition rfind :: "nat \<Rightarrow> pystr \<Rightarrow> int" where
  "rfind c s =
     (if c \<in> set s then int (length s) - 1 - int (length (takeWhile (\<lambda>x. x \<noteq> c) (rev s)))
      else - 1)"

text \<open>\<open>s.rstrip('/')\<close>.\<close>

definition rstrip_sep :: "pystr \<Rightarrow> pystr" where
  "rstrip_sep s = rev (dropWhile (\<lambda>c. c = 47) (rev s))"

text \<open>
  \<open>s.lower()\<close> on the letters A to Z. The source compares the result with \<open>".pdf"\<close>
  and \<open>".bib"\<close> only, and no code point outside ASCII lowers to one of the characters
  of these two strings, so the other code points can stay as they are.
\<close>

definition lower :: "pystr \<Rightarrow> pystr" where
  "lower s = map (\<lambda>c. if 65 \<le> c \<and> c \<le> 90 then c + 32 else c) s"

text \<open>\<open>os.path.join(a, b)\<close>; a call with three arguments joins from the left.\<close>

definition join :: "pystr \<Rightarrow> pystr \<Rightarrow> pystr" where
  "join a b =
     (if take 1 b = [47] then b
      else if a = [] then b
      else if last a = 47 then a @ b
      else a @ [47] @ b)"

text \<open>\<open>os.path.split(p)\<close> and \<open>os.path.dirname(p)\<close>, its first component.\<close>

definition path_split :: "pystr \<Rightarrow> pystr \<times> pystr" where
  "path_split p =
     (let i = nat (rfind 47 p + 1); head = take i p; tail = drop i p
      in (if head = [] then head
          else if head = replicate (length head) 47 then head
          else rstrip_sep head, tail))"

definition dirname :: "pystr \<Rightarrow> pystr" where
  "dirname p = fst (path_split p)"

text \<open>
  \<open>os.path.splitext(p)\<close>: the extension starts at the last dot of the last
  component, unless only dots stand before it in that component.
\<close>

definition splitext :: "pystr \<Rightarrow> pystr \<times> pystr" where
  "splitext p =
     (let sepIndex = rfind 47 p; dotIndex = rfind 46 p
      in if dotIndex > sepIndex
            \<and> filter (\<lambda>c. c \<noteq> 46) (take (nat (dotIndex - (sepIndex + 1))) (drop (nat (sepIndex + 1)) p)) \<noteq> []
         then (take (nat dotIndex) p, drop (nat dotIndex) p)
         else (p, []))"

text \<open>
  \<open>os.path.normpath(path)\<close>: \<open>normpath_comps\<close> is its loop over the components,
  with \<open>new_comps\<close> as the accumulator.
\<close>

fun normpath_comps :: "bool \<Rightarrow> pystr list \<Rightarrow> pystr list \<Rightarrow> pystr list" where
  "normpath_comps initial_slashes new_comps [] = new_comps"
| "normpath_comps initial_slashes new_comps (c # comps) =
     (if c = [] then normpath_comps initial_slashes new_comps comps
      else if c = str ''.'' then normpath_comps initial_slashes new_comps comps
      else if c = str ''..'' then
        (if new_comps = [] then
           (if initial_slashes then normpath_comps initial_slashes new_comps comps
            else normpath_comps initial_slashes (new_comps @ [c]) comps)
         else if last new_comps = str ''..'' then
           normpath_comps initial_slashes (new_comps @ [c]) comps
         else normpath_comps initial_slashes (butlast new_comps) comps)
      else normpath_comps initial_slashes (new_comps @ [c]) comps)"

definition normpath :: "pystr \<Rightarrow> pystr" where
  "normpath path =
     (if path = [] then str ''.''
      else
        let initial_slashes =
              (if take 1 path = [47]
               then (if take 2 path = [47, 47] \<and> take 3 path \<noteq> [47, 47, 47] then 2 else 1)
               else (0::nat));
            comps = normpath_comps (0 < initial_slashes) [] (split_on 47 path);
            p = replicate initial_slashes 47 @ sep_join [47] comps
        in if p = [] then str ''.'' else p)"


section \<open>The file system\<close>

text \<open>
  A file system is a tree of directories, regular files and symbolic links. A
  directory holds its entries in the order in which \<open>os.listdir\<close> returns them; a
  symbolic link holds its target as the string given at its creation, which need not
  name anything. The process has a working directory \<open>cwd\<close>, kept as the names from
  the root down to it.
\<close>

datatype node = File | Symlink pystr | Dir "(pystr \<times> node) list"

record filesystem =
  root :: node
  cwd :: "pystr list"

text \<open>The node at a location, a list of names from the root, none of them followed.\<close>

fun node_at :: "node \<Rightarrow> pystr list \<Rightarrow> node option" where
  "node_at n [] = Some n"
| "node_at (Dir es) (c # cs) = (case map_of es c of None \<Rightarrow> None | Some n \<Rightarrow> node_at n cs)"
| "node_at File (c # cs) = None"
| "node_at (Symlink t) (c # cs) = None"

text \<open>The entries of the directory at a location, changed by \<open>f\<close>.\<close>

fun modify :: "node \<Rightarrow> pystr list \<Rightarrow> ((pystr \<times> node) list \<Rightarrow> (pystr \<times> node) list) \<Rightarrow> node" where
  "modify (Dir es) [] f = Dir (f es)"
| "modify (Dir es) (c # cs) f =
     Dir (map (\<lambda>e. if fst e = c then (fst e, modify (snd e) cs f) else e) es)"
| "modify File cs f = File"
| "modify (Symlink t) cs f = Symlink t"

text \<open>
  Path resolution as POSIX defines it, from the location \<open>loc\<close> along the components
  still to walk. An empty component and \<open>.\<close> stay, \<open>..\<close> goes up, a symbolic link is
  replaced by the components of its target, unless it is the last component and
  \<open>follow\<close> is off (\<open>lstat\<close>, \<open>unlink\<close>). Every link followed takes one from
  \<open>budget\<close>; Linux starts a resolution with 40 and fails with ELOOP when they are
  spent. The result is the location the path names.
\<close>

function resolve :: "node \<Rightarrow> bool \<Rightarrow> nat \<Rightarrow> pystr list \<Rightarrow> pystr list \<Rightarrow> error + pystr list" where
  "resolve r follow budget loc [] = Inr loc"
| "resolve r follow budget loc (c # cs) =
     (case node_at r loc of
        None \<Rightarrow> Inl FileNotFoundError
      | Some File \<Rightarrow> Inl NotADirectoryError
      | Some (Symlink t) \<Rightarrow> Inl NotADirectoryError
      | Some (Dir es) \<Rightarrow>
          if c = [] then resolve r follow budget loc cs
          else if c = str ''.'' then resolve r follow budget loc cs
          else if c = str ''..'' then resolve r follow budget (butlast loc) cs
          else
            (case map_of es c of
               None \<Rightarrow> Inl FileNotFoundError
             | Some File \<Rightarrow> resolve r follow budget (loc @ [c]) cs
             | Some (Dir es') \<Rightarrow> resolve r follow budget (loc @ [c]) cs
             | Some (Symlink t) \<Rightarrow>
                 if cs = [] \<and> \<not> follow then Inr (loc @ [c])
                 else if budget = 0 then Inl OSError_ELOOP
                 else if t = [] then Inl FileNotFoundError
                 else resolve r follow (budget - 1)
                        (if take 1 t = [47] then [] else loc) (split_on 47 t @ cs)))"
  by pat_completeness auto
termination
  by (relation "measures [\<lambda>(r, follow, budget, loc, cs). budget,
                           \<lambda>(r, follow, budget, loc, cs). length cs]") auto

definition locate :: "filesystem \<Rightarrow> bool \<Rightarrow> pystr \<Rightarrow> error + pystr list" where
  "locate fs follow p =
     (if p = [] then Inl FileNotFoundError
      else resolve (root fs) follow 40 (if take 1 p = [47] then [] else cwd fs) (split_on 47 p))"

text \<open>The functions of \<open>os.path\<close> that ask the file system; an error of the lookup is \<open>False\<close>.\<close>

definition exists :: "filesystem \<Rightarrow> pystr \<Rightarrow> bool" where
  "exists fs p = (case locate fs True p of Inl e \<Rightarrow> False | Inr loc \<Rightarrow> True)"

definition lexists :: "filesystem \<Rightarrow> pystr \<Rightarrow> bool" where
  "lexists fs p = (case locate fs False p of Inl e \<Rightarrow> False | Inr loc \<Rightarrow> True)"

definition isdir :: "filesystem \<Rightarrow> pystr \<Rightarrow> bool" where
  "isdir fs p =
     (case locate fs True p of
        Inl e \<Rightarrow> False
      | Inr loc \<Rightarrow> (case node_at (root fs) loc of Some (Dir es) \<Rightarrow> True | _ \<Rightarrow> False))"

definition islink :: "filesystem \<Rightarrow> pystr \<Rightarrow> bool" where
  "islink fs p =
     (case locate fs False p of
        Inl e \<Rightarrow> False
      | Inr loc \<Rightarrow> (case node_at (root fs) loc of Some (Symlink t) \<Rightarrow> True | _ \<Rightarrow> False))"

text \<open>\<open>os.listdir(p)\<close>.\<close>

definition listdir :: "filesystem \<Rightarrow> pystr \<Rightarrow> error + pystr list" where
  "listdir fs p =
     (case locate fs True p of
        Inl e \<Rightarrow> Inl e
      | Inr loc \<Rightarrow>
          (case node_at (root fs) loc of
             Some (Dir es) \<Rightarrow> Inr (map fst es)
           | _ \<Rightarrow> Inl NotADirectoryError))"

text \<open>\<open>os.remove(p)\<close>: unlinks the entry the path names, a symbolic link itself.\<close>

definition remove :: "filesystem \<Rightarrow> pystr \<Rightarrow> error + filesystem" where
  "remove fs p =
     (case locate fs False p of
        Inl e \<Rightarrow> Inl e
      | Inr loc \<Rightarrow>
          (case node_at (root fs) loc of
             None \<Rightarrow> Inl FileNotFoundError
           | Some (Dir es) \<Rightarrow> Inl IsADirectoryError
           | Some n \<Rightarrow>
               Inr (fs\<lparr>root := modify (root fs) (butlast loc)
                                  (filter (\<lambda>e. fst e \<noteq> last loc))\<rparr>)))"

text \<open>
  A new entry at path \<open>p\<close>: the path up to its last component is resolved, and the
  last component must not name an entry. The new entry is listed last.
\<close>

definition create :: "filesystem \<Rightarrow> pystr \<Rightarrow> node \<Rightarrow> error + filesystem" where
  "create fs p new =
     (if p = [] then Inl FileNotFoundError
      else
        (case resolve (root fs) True 40 (if take 1 p = [47] then [] else cwd fs)
                (butlast (split_on 47 p)) of
           Inl e \<Rightarrow> Inl e
         | Inr loc \<Rightarrow>
             (case node_at (root fs) loc of
                None \<Rightarrow> Inl FileNotFoundError
              | Some File \<Rightarrow> Inl NotADirectoryError
              | Some (Symlink t) \<Rightarrow> Inl NotADirectoryError
              | Some (Dir es) \<Rightarrow>
                  let name = last (split_on 47 p) in
                  if name = [] then Inl FileExistsError
                  else if name = str ''.'' then Inl FileExistsError
                  else if name = str ''..'' then Inl FileExistsError
                  else
                    (case map_of es name of
                       Some n \<Rightarrow> Inl FileExistsError
                     | None \<Rightarrow> Inr (fs\<lparr>root := modify (root fs) loc (\<lambda>es. es @ [(name, new)])\<rparr>)))))"

text \<open>\<open>os.symlink(src, dst)\<close>: the target \<open>src\<close> is stored, never looked up.\<close>

definition symlink :: "filesystem \<Rightarrow> pystr \<Rightarrow> pystr \<Rightarrow> error + filesystem" where
  "symlink fs src dst = create fs dst (Symlink src)"

text \<open>\<open>os.mkdir(p)\<close>: slashes after the name of a directory are allowed.\<close>

definition mkdir :: "filesystem \<Rightarrow> pystr \<Rightarrow> error + filesystem" where
  "mkdir fs p = create fs (if rstrip_sep p = [] then p else rstrip_sep p) (Dir [])"


text \<open>
  \<open>os.makedirs(name, exist_ok=exist_ok)\<close>, after the source of the standard library:
  \<open>makedirs_split\<close> is the head and tail it works with, \<open>makedirs_leaf\<close> its closing
  \<open>mkdir\<close>, whose failure is passed over when \<open>exist_ok\<close> holds and \<open>name\<close> is a
  directory. The file system is returned with the error, since the directories made
  before a failure stay.
\<close>

definition makedirs_split :: "pystr \<Rightarrow> pystr \<times> pystr" where
  "makedirs_split name =
     (if snd (path_split name) = [] then path_split (fst (path_split name))
      else path_split name)"

definition makedirs_leaf :: "filesystem \<Rightarrow> pystr \<Rightarrow> bool \<Rightarrow> (error + unit) \<times> filesystem" where
  "makedirs_leaf fs name exist_ok =
     (case mkdir fs name of
        Inr fs' \<Rightarrow> (Inr (), fs')
      | Inl e \<Rightarrow> if exist_ok \<and> isdir fs name then (Inr (), fs) else (Inl e, fs))"

lemma length_rstrip_sep: "length (rstrip_sep s) \<le> length s"
  by (simp add: rstrip_sep_def) (metis length_dropWhile_le length_rev)

lemma path_split_shorter:
  "snd (path_split p) \<noteq> [] \<Longrightarrow> length (fst (path_split p)) < length p"
  using length_rstrip_sep [of "take (nat (rfind 47 p + 1)) p"]
  by (auto simp: path_split_def Let_def)

lemma path_split_le: "length (fst (path_split p)) \<le> length p"
  using length_rstrip_sep [of "take (nat (rfind 47 p + 1)) p"]
  by (auto simp: path_split_def Let_def)

lemma makedirs_split_shorter:
  "snd (makedirs_split name) \<noteq> [] \<Longrightarrow> length (fst (makedirs_split name)) < length name"
  using path_split_shorter [of name] path_split_shorter [of "fst (path_split name)"]
        path_split_le [of name]
  by (auto simp: makedirs_split_def split: if_splits)

function makedirs :: "filesystem \<Rightarrow> pystr \<Rightarrow> bool \<Rightarrow> (error + unit) \<times> filesystem" where
  "makedirs fs name exist_ok =
     (if fst (makedirs_split name) \<noteq> [] \<and> snd (makedirs_split name) \<noteq> []
         \<and> \<not> exists fs (fst (makedirs_split name))
      then
        (case makedirs fs (fst (makedirs_split name)) exist_ok of
           (Inl e, fs') \<Rightarrow>
             if e = FileExistsError then
               (if snd (makedirs_split name) = str ''.'' then (Inr (), fs')
                else makedirs_leaf fs' name exist_ok)
             else (Inl e, fs')
         | (Inr u, fs') \<Rightarrow>
             if snd (makedirs_split name) = str ''.'' then (Inr (), fs')
             else makedirs_leaf fs' name exist_ok)
      else makedirs_leaf fs name exist_ok)"
  by pat_completeness auto
termination
  by (relation "measure (\<lambda>(fs, name, exist_ok). length name)")
     (auto simp: makedirs_split_shorter)

declare makedirs.simps [simp del]


text \<open>
  \<open>os.path.abspath\<close> and \<open>os.path.relpath(path, start)\<close>. \<open>os.getcwd()\<close> is the
  working directory written as a path. \<open>common_prefix_length\<close> is
  \<open>len(commonprefix([start_list, path_list]))\<close>.
\<close>

definition getcwd :: "filesystem \<Rightarrow> pystr" where
  "getcwd fs = [47] @ sep_join [47] (cwd fs)"

definition abspath :: "filesystem \<Rightarrow> pystr \<Rightarrow> pystr" where
  "abspath fs path = normpath (if take 1 path = [47] then path else join (getcwd fs) path)"

fun common_prefix_length :: "pystr list \<Rightarrow> pystr list \<Rightarrow> nat" where
  "common_prefix_length (x # xs) (y # ys) = (if x = y then Suc (common_prefix_length xs ys) else 0)"
| "common_prefix_length xs ys = 0"

definition os_path_relpath :: "filesystem \<Rightarrow> pystr \<Rightarrow> pystr \<Rightarrow> error + pystr" where
  "os_path_relpath fs path start =
     (if path = [] then Inl ValueError
      else
        let start_list = filter (\<lambda>x. x \<noteq> []) (split_on 47 (abspath fs start));
            path_list = filter (\<lambda>x. x \<noteq> []) (split_on 47 (abspath fs path));
            i = common_prefix_length start_list path_list;
            rel_list = replicate (length start_list - i) (str ''..'') @ drop i path_list
        in if rel_list = [] then Inr (str ''.'') else Inr (sep_join [47] rel_list))"

section \<open>The citation keys of a directory: \<open>list_cks\<close>\<close>

text \<open>
  The loop of \<open>list_cks\<close> (lines 52 to 65) over the sorted names still to visit, with
  the set \<open>cks\<close> collected so far. \<open>rec\<close> is the recursive call: it gives \<open>None\<close>
  when it does not return.
\<close>

fun list_cks_loop ::
  "(pystr \<Rightarrow> (error + pystr list) option) \<Rightarrow> filesystem \<Rightarrow> pystr \<Rightarrow> pystr list \<Rightarrow> pystr set
     \<Rightarrow> (error + pystr set) option" where
  "list_cks_loop rec fs ck_bib_dir [] cks = Some (Inr cks)"
| "list_cks_loop rec fs ck_bib_dir (filename # rest) cks =
     (if isdir fs (join ck_bib_dir filename) then
        (case rec (join ck_bib_dir filename) of
           None \<Rightarrow> None
         | Some (Inl e) \<Rightarrow> Some (Inl e)
         | Some (Inr sub) \<Rightarrow> list_cks_loop rec fs ck_bib_dir rest (cks \<union> set sub))
      else if 46 \<in> set (fst (splitext filename)) then list_cks_loop rec fs ck_bib_dir rest cks
      else if lower (snd (splitext filename)) = str ''.pdf'' then
        list_cks_loop rec fs ck_bib_dir rest (insert (fst (splitext filename)) cks)
      else if lower (snd (splitext filename)) = str ''.bib'' then
        list_cks_loop rec fs ck_bib_dir rest (insert (fst (splitext filename)) cks)
      else list_cks_loop rec fs ck_bib_dir rest cks)"

text \<open>
  \<open>list_cks(ck_bib_dir)\<close> (lines 49 to 67). The recursion follows the directories of
  the file system, symbolic links to directories among them, so it is bounded by
  \<open>fuel\<close>, the depth of calls allowed: \<open>None\<close> says that the call needs more.
\<close>

fun list_cks :: "nat \<Rightarrow> filesystem \<Rightarrow> pystr \<Rightarrow> (error + pystr list) option" where
  "list_cks 0 fs ck_bib_dir = None"
| "list_cks (Suc fuel) fs ck_bib_dir =
     (case listdir fs ck_bib_dir of
        Inl e \<Rightarrow> Some (Inl e)
      | Inr names \<Rightarrow>
          (case list_cks_loop (\<lambda>d. list_cks fuel fs d) fs ck_bib_dir (sort names) {} of
             None \<Rightarrow> None
           | Some (Inl e) \<Rightarrow> Some (Inl e)
           | Some (Inr cks) \<Rightarrow> Some (Inr (sorted_list_of_set cks))))"

section \<open>The tag index: \<open>find_tagged_pdfs\<close>\<close>

text \<open>
  The dict \<open>pdfs\<close> from a citation key to the list of its tags, in insertion order.
  \<open>add_tagname\<close> is lines 91 to 93: the key gets an empty list when it is new, then
  the tag is appended to the key's list.
\<close>

type_synonym tagindex = "(pystr \<times> pystr list) list"

definition add_tagname :: "tagindex \<Rightarrow> pystr \<Rightarrow> pystr \<Rightarrow> tagindex" where
  "add_tagname pdfs citation_key tagname =
     (let pdfs' = (if citation_key \<in> fst ` set pdfs then pdfs
                   else AList.update citation_key [] pdfs)
      in (case map_of pdfs' citation_key of
            None \<Rightarrow> pdfs'
          | Some tags \<Rightarrow> AList.update citation_key (tags @ [tagname]) pdfs'))"

text \<open>
  The loop of \<open>find_tagged_pdfs_helper\<close> (lines 76 to 93) over the names still to
  visit, in the order of \<open>os.listdir\<close>. The recursive call \<open>rec\<close> works on the same
  dict, passed on and returned here.
\<close>

fun find_tagged_pdfs_loop ::
  "(pystr \<Rightarrow> tagindex \<Rightarrow> (error + tagindex) option) \<Rightarrow> filesystem \<Rightarrow> pystr \<Rightarrow> pystr
     \<Rightarrow> pystr list \<Rightarrow> tagindex \<Rightarrow> (error + tagindex) option" where
  "find_tagged_pdfs_loop rec fs root_tag_dir tag_subdir [] pdfs = Some (Inr pdfs)"
| "find_tagged_pdfs_loop rec fs root_tag_dir tag_subdir (relpath # rest) pdfs =
     (if isdir fs (join tag_subdir relpath) then
        (case rec (join tag_subdir relpath) pdfs of
           None \<Rightarrow> None
         | Some (Inl e) \<Rightarrow> Some (Inl e)
         | Some (Inr pdfs') \<Rightarrow> find_tagged_pdfs_loop rec fs root_tag_dir tag_subdir rest pdfs')
      else if islink fs (join tag_subdir relpath) then
        (case os_path_relpath fs (dirname (join tag_subdir relpath)) root_tag_dir of
           Inl e \<Rightarrow> Some (Inl e)
         | Inr tagname \<Rightarrow>
             if lower (snd (splitext relpath)) = str ''.pdf'' then
               find_tagged_pdfs_loop rec fs root_tag_dir tag_subdir rest
                 (add_tagname pdfs (fst (splitext relpath)) tagname)
             else find_tagged_pdfs_loop rec fs root_tag_dir tag_subdir rest pdfs)
      else find_tagged_pdfs_loop rec fs root_tag_dir tag_subdir rest pdfs)"


text \<open>
  \<open>find_tagged_pdfs_helper(root_tag_dir, tag_subdir, pdfs, verbosity)\<close> (lines 75
  to 93), bounded by \<open>fuel\<close> as \<open>list_cks\<close> is, and \<open>find_tagged_pdfs\<close> (lines 70 to
  73), which starts it on an empty dict. The messages printed when \<open>verbosity > 1\<close>
  are left out.
\<close>

fun find_tagged_pdfs_helper ::
  "nat \<Rightarrow> filesystem \<Rightarrow> pystr \<Rightarrow> pystr \<Rightarrow> tagindex \<Rightarrow> (error + tagindex) option" where
  "find_tagged_pdfs_helper 0 fs root_tag_dir tag_subdir pdfs = None"
| "find_tagged_pdfs_helper (Suc fuel) fs root_tag_dir tag_subdir pdfs =
     (case listdir fs tag_subdir of
        Inl e \<Rightarrow> Some (Inl e)
      | Inr names \<Rightarrow>
          find_tagged_pdfs_loop (\<lambda>d p. find_tagged_pdfs_helper fuel fs root_tag_dir d p)
            fs root_tag_dir tag_subdir names pdfs)"

definition find_tagged_pdfs :: "nat \<Rightarrow> filesystem \<Rightarrow> pystr \<Rightarrow> (error + tagindex) option" where
  "find_tagged_pdfs fuel fs ck_tag_subdir =
     find_tagged_pdfs_helper fuel fs ck_tag_subdir ck_tag_subdir []"

section \<open>Untagged papers: \<open>find_untagged_pdfs\<close>\<close>

text \<open>The loop of lines 103 to 109 over the citation keys still to visit.\<close>

fun find_untagged_loop ::
  "filesystem \<Rightarrow> pystr \<Rightarrow> pystr list \<Rightarrow> pystr list \<Rightarrow> (pystr \<times> pystr) set \<Rightarrow> (pystr \<times> pystr) set" where
  "find_untagged_loop fs ck_bib_dir tagged_cks [] untagged = untagged"
| "find_untagged_loop fs ck_bib_dir tagged_cks (ck # cks) untagged =
     (if exists fs (join ck_bib_dir (ck @ str ''.pdf'')) then
        (if ck \<in> set tagged_cks then find_untagged_loop fs ck_bib_dir tagged_cks cks untagged
         else find_untagged_loop fs ck_bib_dir tagged_cks cks
                (insert (join ck_bib_dir (ck @ str ''.pdf''), ck) untagged))
      else find_untagged_loop fs ck_bib_dir tagged_cks cks untagged)"

text \<open>\<open>find_untagged_pdfs(ck_bib_dir, ck_tag_dir, verbosity)\<close> (lines 95 to 111).\<close>

definition find_untagged_pdfs ::
  "nat \<Rightarrow> filesystem \<Rightarrow> pystr \<Rightarrow> pystr \<Rightarrow> (error + (pystr \<times> pystr) set) option" where
  "find_untagged_pdfs fuel fs ck_bib_dir ck_tag_dir =
     (case find_tagged_pdfs fuel fs ck_tag_dir of
        None \<Rightarrow> None
      | Some (Inl e) \<Rightarrow> Some (Inl e)
      | Some (Inr pdfs) \<Rightarrow>
          (case list_cks fuel fs ck_bib_dir of
             None \<Rightarrow> None
           | Some (Inl e) \<Rightarrow> Some (Inl e)
           | Some (Inr cks) \<Rightarrow>
               Some (Inr (find_untagged_loop fs ck_bib_dir (map fst pdfs) cks {}))))"

section \<open>Tagging and untagging: \<open>tag_paper\<close>, \<open>untag_paper\<close>\<close>

text \<open>
  \<open>untag_paper(ck_tag_dir, citation_key, tag)\<close> (lines 161 to 167): what the call
  returns or raises, and the file system after it.
\<close>

definition untag_paper ::
  "filesystem \<Rightarrow> pystr \<Rightarrow> pystr \<Rightarrow> pystr \<Rightarrow> (error + bool) \<times> filesystem" where
  "untag_paper fs ck_tag_dir citation_key tag =
     (let filepath = join (join ck_tag_dir tag) (citation_key @ str ''.pdf'')
      in if exists fs filepath then
           (case remove fs filepath of
              Inl e \<Rightarrow> (Inl e, fs)
            | Inr fs' \<Rightarrow> (Inr True, fs'))
         else (Inr False, fs))"

text \<open>
  \<open>tag_paper(ck_tag_dir, ck_bib_dir, citation_key, tag)\<close> (lines 169 to 182): what
  the call returns or raises, the file system after it and the lines it printed to
  the standard output. \<open>os.makedirs\<close> stands before the \<open>try\<close>, so its errors leave
  the function as they are. The traceback of line 181 goes to the standard error and
  is left out.
\<close>

definition tag_paper ::
  "filesystem \<Rightarrow> pystr \<Rightarrow> pystr \<Rightarrow> pystr \<Rightarrow> pystr
     \<Rightarrow> (error + bool) \<times> filesystem \<times> pystr list" where
  "tag_paper fs ck_tag_dir ck_bib_dir citation_key tag =
     (let pdf_tag_dir = join ck_tag_dir tag in
      (case makedirs fs pdf_tag_dir True of
         (Inl e, fs') \<Rightarrow> (Inl e, fs', [])
       | (Inr u, fs') \<Rightarrow>
           let pdfname = citation_key @ str ''.pdf'' in
           (case symlink fs' (join ck_bib_dir pdfname) (join pdf_tag_dir pdfname) of
              Inr fs'' \<Rightarrow> (Inr True, fs'', [])
            | Inl e \<Rightarrow>
                if e = FileExistsError then (Inr False, fs', [])
                else (Inl e, fs',
                      [str ''Unexpected error while tagging '' @ citation_key
                         @ str '' with '' @ [39] @ tag]))))"



section \<open>File systems that grow\<close>

text \<open>
  Two notions for the proofs about \<open>tag_paper\<close>: \<open>same_kind\<close> holds of two nodes of
  the same sort (with the same target, for links), and \<open>grows r r'\<close> when every
  directory of \<open>r\<close> is a directory of \<open>r'\<close> at the same place and keeps the entries it
  has, as the same kind of node.
\<close>

definition same_kind :: "node \<Rightarrow> node \<Rightarrow> bool" where
  "same_kind v v' =
     (case v of
        File \<Rightarrow> v' = File
      | Symlink t \<Rightarrow> v' = Symlink t
      | Dir es \<Rightarrow> (case v' of Dir es' \<Rightarrow> True | File \<Rightarrow> False | Symlink t \<Rightarrow> False))"

definition grows :: "node \<Rightarrow> node \<Rightarrow> bool" where
  "grows r r' =
     (\<forall>loc es. node_at r loc = Some (Dir es) \<longrightarrow>
        (\<exists>es'. node_at r' loc = Some (Dir es') \<and>
           (\<forall>c v. map_of es c = Some v \<longrightarrow> (\<exists>v'. map_of es' c = Some v' \<and> same_kind v v'))))"

section \<open>File systems of the examples\<close>

text \<open>
  The bibliography directory \<open>/b\<close> and the tag root \<open>/t\<close>. In \<open>fs_no_pdf\<close> both are
  empty. In \<open>fs_dangling\<close> the tag \<open>x\<close> holds the link \<open>C.pdf\<close> to \<open>/b/C.pdf\<close>, a
  file that is not there.
\<close>

definition fs_no_pdf :: filesystem where
  "fs_no_pdf = \<lparr>root = Dir [(str ''b'', Dir []), (str ''t'', Dir [])], cwd = []\<rparr>"

definition fs_dangling :: filesystem where
  "fs_dangling =
     \<lparr>root = Dir [(str ''b'', Dir []),
                  (str ''t'', Dir [(str ''x'', Dir [(str ''C.pdf'', Symlink (str ''/b/C.pdf''))])])],
      cwd = []\<rparr>"


section \<open>Properties of \<open>canonicalize_bibtex\<close>\<close>

lemma dropWhile_last_keep: "dropWhile P xs \<noteq> [] \<Longrightarrow> last (dropWhile P xs) = last xs"
  by (induction xs) (auto split: if_splits)

lemma strip_shape: "strip s = [] \<or> (\<not> py_isspace (hd (strip s)) \<and> \<not> py_isspace (last (strip s)))"
proof (cases "strip s = []")
  case True then show ?thesis by simp
next
  case False
  let ?l = "dropWhile py_isspace s"
  let ?r = "dropWhile py_isspace (rev ?l)"
  have s: "strip s = rev ?r" by (simp add: strip_def rstrip_def lstrip_def)
  have r: "?r \<noteq> []" using False s by simp
  have a: "\<not> py_isspace (hd ?r)" using r by (rule hd_dropWhile)
  have l: "?l \<noteq> []"
  proof
    assume e: "?l = []"
    have "?r = []" unfolding e by simp
    with r show False by blast
  qed
  have hdl: "\<not> py_isspace (hd ?l)" using l by (rule hd_dropWhile)
  have "last ?r = last (rev ?l)" using r by (rule dropWhile_last_keep) 
  then have b: "last ?r = hd ?l" using l by (simp add: last_rev)
  have "hd (strip s) = last ?r" using r s by (simp add: hd_rev)
  moreover have "last (strip s) = hd ?r" using r s by (simp add: last_rev)
  ultimately show ?thesis using a b hdl by simp
qed

lemma strip_fixed: "s \<noteq> [] \<Longrightarrow> \<not> py_isspace (hd s) \<Longrightarrow> \<not> py_isspace (last s) \<Longrightarrow> strip s = s"
proof -
  assume n: "s \<noteq> []" and h: "\<not> py_isspace (hd s)" and l: "\<not> py_isspace (last s)"
  have 1: "dropWhile py_isspace s = s" using n h by (cases s) auto
  have hr: "hd (rev s) = last s" using n by (simp add: hd_rev)
  obtain y ys where e: "rev s = y # ys" using n by (cases "rev s") simp_all
  have "\<not> py_isspace y" using hr l unfolding e by simp
  then have 2: "dropWhile py_isspace (rev s) = rev s" unfolding e by simp
  show ?thesis by (simp add: strip_def rstrip_def lstrip_def 1 2)
qed

lemma strip_idem: "strip (strip s) = strip s"
proof (cases "strip s = []")
  case True
  have "strip [] = []" by (simp add: strip_def rstrip_def lstrip_def)
  with True show ?thesis by simp
next
  case False then show ?thesis using strip_shape [of s] strip_fixed [of "strip s"] by blast
qed

lemma set_strip: "set (strip s) \<subseteq> set s"
proof -
  have "set (strip s) = set (dropWhile py_isspace (rev (dropWhile py_isspace s)))"
    by (simp add: strip_def rstrip_def lstrip_def)
  also have "\<dots> \<subseteq> set (rev (dropWhile py_isspace s))" by (rule set_dropWhileD [THEN subsetI]) 
  also have "\<dots> \<subseteq> set s" using set_dropWhileD by fastforce
  finally show ?thesis .
qed

lemma replace_absent: "old \<notin> set s \<Longrightarrow> replace old new s = s"
  by (induction s) (auto simp: replace_def)

lemma replace_gone: "old \<notin> set new \<Longrightarrow> old \<notin> set (replace old new s)"
  by (induction s) (auto simp: replace_def)

lemma replace_keeps_absent: "c \<notin> set s \<Longrightarrow> c \<notin> set new \<Longrightarrow> c \<notin> set (replace old new s)"
  by (induction s) (auto simp: replace_def)

lemma author_fixed:
  "strip (replace 10 [32] (replace 13 [] (strip (replace 10 [32] (replace 13 [] a))))) =
   strip (replace 10 [32] (replace 13 [] a))"
proof -
  let ?b = "replace 10 [32] (replace 13 [] a)"
  have "13 \<notin> set (replace 13 [] a)" by (rule replace_gone) simp
  then have 13: "13 \<notin> set ?b" by (rule replace_keeps_absent) simp
  have 10: "10 \<notin> set ?b" by (rule replace_gone) simp
  have "13 \<notin> set (strip ?b)" "10 \<notin> set (strip ?b)" using 13 10 set_strip [of ?b] by auto
  then show ?thesis by (simp add: replace_absent strip_idem)
qed

lemma strip_wrapped: "strip ([123] @ t @ [125]) = [123] @ t @ [125]"
  by (rule strip_fixed) (simp_all add: py_isspace_def)

lemma py_index_first: "s \<noteq> [] \<Longrightarrow> py_index s 0 = Inr (hd s)"
  by (cases s) (simp_all add: py_index_def)

lemma py_index_first_empty: "py_index [] 0 = Inl IndexError"
  by (simp add: py_index_def)

lemma py_index_last: "s \<noteq> [] \<Longrightarrow> py_index s (int (length s) - 1) = Inr (last s)"
  by (cases s rule: rev_cases) (simp_all add: py_index_def nth_append)

lemma keys_distinct:
  "str ''ID'' \<noteq> str ''author''" "str ''ID'' \<noteq> str ''title''" "str ''author'' \<noteq> str ''title''"
  "str ''author'' \<noteq> str ''ID''" "str ''title'' \<noteq> str ''ID''" "str ''title'' \<noteq> str ''author''"
  by (simp_all add: str_def)

lemma setitem_same: "map_of bib k = Some v \<Longrightarrow> setitem bib k v = bib"
  by (simp add: setitem_def update_triv)

lemma map_of_setitem: "map_of (setitem bib k v) k' = (if k' = k then Some v else map_of bib k')"
  by (simp add: setitem_def update_conv')

lemma canonicalize_entry_ok:
  assumes i: "map_of bib (str ''ID'') = Some bck"
      and a: "map_of bib (str ''author'') = Some a"
      and t: "map_of bib (str ''title'') = Some t"
      and n: "strip t \<noteq> []"
  shows "canonicalize_entry ck bib u =
     (Inr (u \<or> bck \<noteq> ck \<or> a \<noteq> strip (replace 10 [32] (replace 13 [] a)) \<or>
           t \<noteq> (if hd (strip t) \<noteq> 123 \<and> last (strip t) \<noteq> 125
                  then [123] @ strip t @ [125] else strip t)),
      setitem (setitem (setitem bib (str ''ID'') ck) (str ''author'')
                 (strip (replace 10 [32] (replace 13 [] a))))
        (str ''title'')
        (if hd (strip t) \<noteq> 123 \<and> last (strip t) \<noteq> 125
         then [123] @ strip t @ [125] else strip t))"
proof -
  define A where "A = strip (replace 10 [32] (replace 13 [] a))"
  define T where "T = (if hd (strip t) \<noteq> 123 \<and> last (strip t) \<noteq> 125 then [123] @ strip t @ [125] else strip t)"
  define b1 where "b1 = setitem bib (str ''ID'') ck"
  define b2 where "b2 = setitem b1 (str ''author'') A"
  define b3 where "b3 = setitem b2 (str ''title'') T"
  have e1: "(if bck \<noteq> ck then setitem bib (str ''ID'') ck else bib) = b1"
    using i by (simp add: setitem_same b1_def)
  have a1: "map_of b1 (str ''author'') = Some a"
    using a by (simp add: map_of_setitem keys_distinct b1_def)
  have e2: "(if a \<noteq> A then setitem b1 (str ''author'') A else b1) = b2"
    using a1 by (simp add: setitem_same b2_def)
  have t2: "map_of b2 (str ''title'') = Some t"
    using t by (simp add: map_of_setitem keys_distinct b2_def b1_def)
  have e3: "(if t \<noteq> T then setitem b2 (str ''title'') T else b2) = b3"
    using t2 by (simp add: setitem_same b3_def)
  have T': "(if hd (strip t) \<noteq> 123 \<and> (if hd (strip t) \<noteq> 123 then last (strip t) else 125) \<noteq> 125
             then [123] @ strip t @ [125] else strip t) = T"
    by (simp add: T_def)
  have c: "canonicalize_entry ck bib u =
      (Inr (if t \<noteq> T then True else if a \<noteq> A then True else if bck \<noteq> ck then True else u), b3)"
    unfolding canonicalize_entry_def Let_def getitem_def
    apply (simp only: i option.case sum.case e1 a1 flip: A_def)
    apply (simp only: e2 t2 option.case sum.case py_index_first [OF n] py_index_last [OF n])
    apply (cases "hd (strip t) = 123")
     apply (simp_all only: if_True if_False not_True_eq_False not_False_eq_True sum.case simp_thms T' e3)
    using T' e3 apply (auto split: if_splits)
    done
  show ?thesis unfolding c b3_def b2_def b1_def A_def T_def by auto
qed

lemma canonicalize_entry_no_ID:
  "map_of bib (str ''ID'') = None \<Longrightarrow> canonicalize_entry ck bib u = (Inl KeyError, bib)"
  by (simp add: canonicalize_entry_def getitem_def)

lemma canonicalize_entry_no_author:
  assumes "map_of bib (str ''ID'') = Some bck" and "map_of bib (str ''author'') = None"
  shows "canonicalize_entry ck bib u = (Inl KeyError, setitem bib (str ''ID'') ck)"
  using assms
  by (simp add: canonicalize_entry_def getitem_def Let_def map_of_setitem keys_distinct setitem_same)

lemma canonicalize_entry_no_title:
  assumes i: "map_of bib (str ''ID'') = Some bck" and a: "map_of bib (str ''author'') = Some a"
    and t: "map_of bib (str ''title'') = None"
  shows "fst (canonicalize_entry ck bib u) = Inl KeyError"
  using assms
  by (simp add: canonicalize_entry_def getitem_def Let_def map_of_setitem keys_distinct)

lemma canonicalize_entry_empty_title:
  assumes i: "map_of bib (str ''ID'') = Some bck" and a: "map_of bib (str ''author'') = Some a"
    and t: "map_of bib (str ''title'') = Some t" and n: "strip t = []"
  shows "fst (canonicalize_entry ck bib u) = Inl IndexError"
  using assms
  by (simp add: canonicalize_entry_def getitem_def Let_def map_of_setitem keys_distinct
      py_index_first_empty)

lemma canonicalize_entry_InrD:
  assumes "fst (canonicalize_entry ck bib u) = Inr b"
  shows "\<exists>bck a t. map_of bib (str ''ID'') = Some bck \<and> map_of bib (str ''author'') = Some a \<and>
           map_of bib (str ''title'') = Some t \<and> strip t \<noteq> []"
proof -
  obtain bck where i: "map_of bib (str ''ID'') = Some bck"
    using assms canonicalize_entry_no_ID [of bib ck u] by (cases "map_of bib (str ''ID'')") auto
  obtain a where a: "map_of bib (str ''author'') = Some a"
    using assms canonicalize_entry_no_author [OF i, of ck u]
    by (cases "map_of bib (str ''author'')") auto
  obtain t where t: "map_of bib (str ''title'') = Some t"
    using assms canonicalize_entry_no_title [OF i a, of ck u]
    by (cases "map_of bib (str ''title'')") auto
  have "strip t \<noteq> []"
    using assms canonicalize_entry_empty_title [OF i a t, of ck u] by auto
  with i a t show ?thesis by blast
qed

lemma canonicalize_bibtex_single:
  "canonicalize_bibtex ck [bib] =
     (fst (canonicalize_entry ck bib False), [snd (canonicalize_entry ck bib False)])"
  by (cases "canonicalize_entry ck bib False"; cases "fst (canonicalize_entry ck bib False)")
     (simp_all add: canonicalize_bibtex_def)

lemma canonicalize_bibtex_not_single:
  "length entries \<noteq> 1 \<Longrightarrow> canonicalize_bibtex ck entries = (Inl AssertionError, entries)"
  by (simp add: canonicalize_bibtex_def)

lemma title_fixed:
  assumes n: "strip t \<noteq> []"
  defines "T \<equiv> (if hd (strip t) \<noteq> 123 \<and> last (strip t) \<noteq> 125 then [123] @ strip t @ [125] else strip t)"
  shows "strip T = T" and "T \<noteq> []" and "\<not> (hd T \<noteq> 123 \<and> last T \<noteq> 125)"
proof -
  show "strip T = T" unfolding T_def by (simp add: strip_idem strip_wrapped [simplified])
  show "T \<noteq> []" unfolding T_def using n by simp
  show "\<not> (hd T \<noteq> 123 \<and> last T \<noteq> 125)" unfolding T_def by auto
qed

lemma canonicalize_entry_idem:
  assumes r: "canonicalize_entry ck bib u = (Inr b, bib')"
  shows "canonicalize_entry ck bib' u' = (Inr u', bib')"
proof -
  from r have "fst (canonicalize_entry ck bib u) = Inr b" by simp
  then obtain bck a t where i: "map_of bib (str ''ID'') = Some bck"
    and a: "map_of bib (str ''author'') = Some a"
    and t: "map_of bib (str ''title'') = Some t" and n: "strip t \<noteq> []"
    using canonicalize_entry_InrD by blast
  define A where "A = strip (replace 10 [32] (replace 13 [] a))"
  define T where "T = (if hd (strip t) \<noteq> 123 \<and> last (strip t) \<noteq> 125 then [123] @ strip t @ [125] else strip t)"
  have bib': "bib' = setitem (setitem (setitem bib (str ''ID'') ck) (str ''author'') A) (str ''title'') T"
    using r canonicalize_entry_ok [OF i a t n, of ck u] by (simp add: A_def T_def)
  have i': "map_of bib' (str ''ID'') = Some ck"
    and a': "map_of bib' (str ''author'') = Some A"
    and t': "map_of bib' (str ''title'') = Some T"
    by (simp_all add: bib' map_of_setitem keys_distinct)
  have TT: "strip T = T" "T \<noteq> []" "\<not> (hd T \<noteq> 123 \<and> last T \<noteq> 125)"
    using title_fixed [OF n] by (simp_all add: T_def)
  have AA: "strip (replace 10 [32] (replace 13 [] A)) = A"
    unfolding A_def by (rule author_fixed)
  have n': "strip T \<noteq> []" using TT by simp
  show ?thesis
    using canonicalize_entry_ok [OF i' a' t' n', of ck u'] TT AA
    by (simp add: setitem_same i' a' t' map_of_setitem keys_distinct)
qed



lemma canonicalize_bibtex_idem:
  assumes "canonicalize_bibtex ck entries = (Inr b, entries')"
  shows "canonicalize_bibtex ck entries' = (Inr False, entries')"
proof -
  have "length entries = 1"
    using assms canonicalize_bibtex_not_single [of entries ck] by (cases "length entries = 1") auto
  then obtain bib where e: "entries = [bib]" by (cases entries) auto
  obtain r bib' where c: "canonicalize_entry ck bib False = (r, bib')"
    by (cases "canonicalize_entry ck bib False") auto
  from assms e c have r: "r = Inr b" and e': "entries' = [bib']"
    by (simp_all add: canonicalize_bibtex_single)
  from c r have "canonicalize_entry ck bib' False = (Inr False, bib')"
    using canonicalize_entry_idem by blast
  then show ?thesis by (simp add: e' canonicalize_bibtex_single)
qed

text \<open>
  C10: on a record with one entry that has its three fields and whose title trims to
  the empty string, \<open>canonicalize_bibtex\<close> raises \<open>IndexError\<close>: line 207 reads
  \<open>title[0]\<close> of the empty string.
\<close>

theorem C10_empty_title_raises_IndexError:
  assumes "map_of bib (str ''ID'') = Some bck"
      and "map_of bib (str ''author'') = Some a"
      and "map_of bib (str ''title'') = Some t"
      and "strip t = []"
  shows "fst (canonicalize_bibtex ck [bib]) = Inl IndexError"
  using canonicalize_entry_empty_title [OF assms] by (simp add: canonicalize_bibtex_single)

theorem C10_empty_title_witness:
  "fst (canonicalize_bibtex (str ''X'')
          [[(str ''ID'', str ''X''), (str ''author'', str ''A''), (str ''title'', str '' '')]])
   = Inl IndexError"
  using C10_empty_title_raises_IndexError
          [of "[(str ''ID'', str ''X''), (str ''author'', str ''A''), (str ''title'', str '' '')]"
              "str ''X''" "str ''A''" "str '' ''" "str ''X''"]
  by (simp add: str_def strip_def lstrip_def rstrip_def py_isspace_def)

text \<open>
  C5: \<open>canonicalize("X", \<dots>)\<close> on the record \<open>{ID: "Y", author: "A\nB", title: "T"}\<close>
  returns true and leaves \<open>{ID: "X", author: "A B", title: "{T}"}\<close>; on that record
  it returns false and changes nothing. In general, on the record left by any call
  that returned, a second call with the same key returns false and changes no field.
\<close>

theorem C5_canonicalize_idempotent:
  "canonicalize_bibtex (str ''X'')
     [[(str ''ID'', str ''Y''), (str ''author'', str ''A\<newline>B''), (str ''title'', str ''T'')]]
   = (Inr True,
      [[(str ''ID'', str ''X''), (str ''author'', str ''A B''), (str ''title'', str ''{T}'')]])
   \<and> canonicalize_bibtex (str ''X'')
     [[(str ''ID'', str ''X''), (str ''author'', str ''A B''), (str ''title'', str ''{T}'')]]
   = (Inr False,
      [[(str ''ID'', str ''X''), (str ''author'', str ''A B''), (str ''title'', str ''{T}'')]])
   \<and> (\<forall>ck entries b entries'.
         canonicalize_bibtex ck entries = (Inr b, entries')
         \<longrightarrow> canonicalize_bibtex ck entries' = (Inr False, entries'))"
proof -
  have 1: "canonicalize_bibtex (str ''X'')
     [[(str ''ID'', str ''Y''), (str ''author'', str ''A\<newline>B''), (str ''title'', str ''T'')]]
   = (Inr True,
      [[(str ''ID'', str ''X''), (str ''author'', str ''A B''), (str ''title'', str ''{T}'')]])"
    by (simp add: canonicalize_bibtex_def canonicalize_entry_def getitem_def setitem_def
        str_def strip_def lstrip_def rstrip_def replace_def py_isspace_def py_index_def)
  from 1 have 2: "canonicalize_bibtex (str ''X'')
     [[(str ''ID'', str ''X''), (str ''author'', str ''A B''), (str ''title'', str ''{T}'')]]
   = (Inr False,
      [[(str ''ID'', str ''X''), (str ''author'', str ''A B''), (str ''title'', str ''{T}'')]])"
    by (rule canonicalize_bibtex_idem)
  show ?thesis using 1 2 canonicalize_bibtex_idem by blast
qed

theorem C5_canonicalize_idempotent_witness:
  "canonicalize_bibtex (str ''X'')
     [[(str ''ID'', str ''Y''), (str ''author'', str ''A\<newline>B''), (str ''title'', str '' T '')]]
   = (Inr True,
      [[(str ''ID'', str ''X''), (str ''author'', str ''A B''), (str ''title'', str ''{T}'')]])
   \<and> canonicalize_bibtex (str ''X'')
     [[(str ''ID'', str ''X''), (str ''author'', str ''A B''), (str ''title'', str ''{T}'')]]
   = (Inr False,
      [[(str ''ID'', str ''X''), (str ''author'', str ''A B''), (str ''title'', str ''{T}'')]])"
proof -
  have 1: "canonicalize_bibtex (str ''X'')
     [[(str ''ID'', str ''Y''), (str ''author'', str ''A\<newline>B''), (str ''title'', str '' T '')]]
   = (Inr True,
      [[(str ''ID'', str ''X''), (str ''author'', str ''A B''), (str ''title'', str ''{T}'')]])"
    by (simp add: canonicalize_bibtex_def canonicalize_entry_def getitem_def setitem_def
        str_def strip_def lstrip_def rstrip_def replace_def py_isspace_def py_index_def)
  with C5_canonicalize_idempotent show ?thesis by blast
qed

text \<open>
  C1: the title \<open>{T\<close>, which starts with a brace and does not end with one, is
  left as it is, and so is \<open>T}\<close>: line 207 wraps a title only when it neither starts
  with \<open>{\<close> nor ends with \<open>}\<close>. The call returns false and the record is unchanged.
\<close>

theorem C1_one_brace_title_not_wrapped:
  "canonicalize_bibtex (str ''X'')
     [[(str ''ID'', str ''X''), (str ''author'', str ''A''), (str ''title'', str ''{T'')]]
   = (Inr False,
      [[(str ''ID'', str ''X''), (str ''author'', str ''A''), (str ''title'', str ''{T'')]])
   \<and> canonicalize_bibtex (str ''X'')
     [[(str ''ID'', str ''X''), (str ''author'', str ''A''), (str ''title'', str ''T}'')]]
   = (Inr False,
      [[(str ''ID'', str ''X''), (str ''author'', str ''A''), (str ''title'', str ''T}'')]])"
  by (simp add: canonicalize_bibtex_def canonicalize_entry_def getitem_def setitem_def
        str_def strip_def lstrip_def rstrip_def replace_def py_isspace_def py_index_def)


section \<open>Path resolution and \<open>tag_paper\<close>\<close>

lemma resolve_step_cases [consumes 1, case_names at_empty at_dot at_dotdot at_file at_dir at_link_last at_link]:
  assumes "resolve r f b loc (c # cs) = Inr x"
  obtains
    (at_empty) es where "node_at r loc = Some (Dir es)" "c = []" "resolve r f b loc cs = Inr x"
  | (at_dot) es where "node_at r loc = Some (Dir es)" "c \<noteq> []" "c = str ''.''"
      "resolve r f b loc cs = Inr x"
  | (at_dotdot) es where "node_at r loc = Some (Dir es)" "c \<noteq> []" "c \<noteq> str ''.''" "c = str ''..''"
      "resolve r f b (butlast loc) cs = Inr x"
  | (at_file) es where "node_at r loc = Some (Dir es)" "c \<noteq> []" "c \<noteq> str ''.''" "c \<noteq> str ''..''"
      "map_of es c = Some File" "resolve r f b (loc @ [c]) cs = Inr x"
  | (at_dir) es es' where "node_at r loc = Some (Dir es)" "c \<noteq> []" "c \<noteq> str ''.''"
      "c \<noteq> str ''..''" "map_of es c = Some (Dir es')" "resolve r f b (loc @ [c]) cs = Inr x"
  | (at_link_last) es t where "node_at r loc = Some (Dir es)" "c \<noteq> []" "c \<noteq> str ''.''"
      "c \<noteq> str ''..''" "map_of es c = Some (Symlink t)" "cs = []" "\<not> f" "x = loc @ [c]"
  | (at_link) es t where "node_at r loc = Some (Dir es)" "c \<noteq> []" "c \<noteq> str ''.''"
      "c \<noteq> str ''..''" "map_of es c = Some (Symlink t)" "\<not> (cs = [] \<and> \<not> f)" "b \<noteq> 0" "t \<noteq> []"
      "resolve r f (b - 1) (if take 1 t = [47] then [] else loc) (split_on 47 t @ cs) = Inr x"
  using assms
  by (simp split: option.splits node.splits if_splits)

lemma resolve_prefix:
  assumes "resolve r f b loc (cs @ d # ds) = Inr x" and "f'"
  shows "\<exists>y es. resolve r f' b loc cs = Inr y \<and> node_at r y = Some (Dir es) \<and>
           (d = [] \<or> d = str ''.'' \<or> d = str ''..'' \<or> map_of es d \<noteq> None)"
  using assms
proof (induction r f' b loc cs rule: resolve.induct)
  case (1 r follow budget loc)
  from "1.prems"(1) have "resolve r f budget loc (d # ds) = Inr x" by simp
  then show ?case by (cases rule: resolve_step_cases) auto
next
  case (2 r follow budget loc c cs)
  from "2.prems"(1) have p: "resolve r f budget loc (c # (cs @ d # ds)) = Inr x" by simp
  note f = \<open>follow\<close>
  from p show ?case
  proof (cases rule: resolve_step_cases)
    case (at_empty es)
    with "2.IH"(1) f show ?thesis by simp
  next
    case (at_dot es)
    with "2.IH"(2) f show ?thesis by simp
  next
    case (at_dotdot es)
    with "2.IH"(3) f show ?thesis by simp
  next
    case (at_file es)
    with "2.IH"(4) f show ?thesis by simp
  next
    case (at_dir es es')
    with "2.IH"(6) f show ?thesis by simp
  next
    case (at_link_last es t)
    then show ?thesis by simp
  next
    case (at_link es t)
    with "2.IH"(5) [of "Dir es" es "Symlink t" t] f show ?thesis by simp
  qed
qed


lemma split_on_nonempty: "split_on sep s \<noteq> []"
  by (induction s) (auto split: list.splits)

lemma split_on_no_sep: "sep \<notin> set s \<Longrightarrow> split_on sep s = [s]"
  by (induction s) auto

lemma split_on_append_sep: "split_on sep (a @ sep # b) = split_on sep a @ split_on sep b"
proof (induction a)
  case Nil
  show ?case by simp
next
  case (Cons c a)
  obtain x xs where x: "split_on sep a = x # xs"
    using split_on_nonempty [of sep a] by (cases "split_on sep a") auto
  show ?case using Cons x by simp
qed

lemma split_on_snoc_sep: "split_on sep (a @ [sep]) = split_on sep a @ [[]]"
  using split_on_append_sep [of sep a "[]"] by simp

lemma split_on_snoc_seps: "split_on sep (a @ replicate k sep) = split_on sep a @ replicate k []"
proof (induction k)
  case 0
  show ?case by simp
next
  case (Suc k)
  have "a @ replicate (Suc k) sep = (a @ replicate k sep) @ [sep]"
    by (simp add: replicate_append_same)
  then show ?case using Suc split_on_snoc_sep [of sep "a @ replicate k sep"]
    by (simp add: replicate_append_same)
qed

lemma rstrip_sep_decomp: "\<exists>k. s = rstrip_sep s @ replicate k 47"
proof -
  have "rev s = takeWhile (\<lambda>c. c = 47) (rev s) @ dropWhile (\<lambda>c. c = 47) (rev s)" by simp
  then have "s = rev (dropWhile (\<lambda>c. c = 47) (rev s)) @ rev (takeWhile (\<lambda>c. c = 47) (rev s))"
    by (metis rev_append rev_rev_ident)
  moreover have "\<exists>k. rev (takeWhile (\<lambda>c. c = 47) (rev s)) = replicate k (47::nat)"
  proof -
    have "\<forall>x \<in> set (rev (takeWhile (\<lambda>c. c = 47) (rev s))). x = 47"
      using set_takeWhileD by fastforce
    then show ?thesis by (metis replicate_eqI)
  qed
  ultimately show ?thesis by (auto simp: rstrip_sep_def)
qed

lemma rstrip_sep_last: "rstrip_sep s \<noteq> [] \<Longrightarrow> last (rstrip_sep s) \<noteq> 47"
proof -
  assume n: "rstrip_sep s \<noteq> []"
  then have d: "dropWhile (\<lambda>c. c = 47) (rev s) \<noteq> []" by (simp add: rstrip_sep_def)
  have "last (rstrip_sep s) = hd (dropWhile (\<lambda>c. c = 47) (rev s))"
    using d by (simp add: rstrip_sep_def last_rev)
  then show ?thesis using hd_dropWhile [OF d] by simp
qed

lemma rfind_last_sep:
  assumes "c \<in> set p"
  shows "\<exists>X t. p = X @ c # t \<and> c \<notin> set t \<and> rfind c p = int (length X)"
proof -
  from assms obtain X t where p: "p = X @ c # t" and t: "c \<notin> set t"
    using split_list_last by fastforce
  have "takeWhile (\<lambda>x. x \<noteq> c) (rev p) = rev t"
    using t by (auto simp: p takeWhile_tail)
  then have "rfind c p = int (length X)" using assms by (simp add: rfind_def p)
  with p t show ?thesis by blast
qed

lemma path_split_head:
  assumes "fst (path_split p) \<noteq> []"
  shows "\<exists>q. p = fst (path_split p) @ q \<and> (take 1 q = [47] \<or> last (fst (path_split p)) = 47)"
proof -
  have in_p: "47 \<in> set p"
  proof (rule ccontr)
    assume "47 \<notin> set p"
    then have "rfind 47 p = - 1" by (simp add: rfind_def)
    then have "fst (path_split p) = []" by (simp add: path_split_def)
    with assms show False by simp
  qed
  then obtain X t where p: "p = X @ 47 # t" and t: "47 \<notin> set t"
    and r: "rfind 47 p = int (length X)"
    using rfind_last_sep by blast
  have i: "nat (rfind 47 p + 1) = length X + 1" using r by simp
  have h0: "take (nat (rfind 47 p + 1)) p = X @ [47]" unfolding i by (simp add: p)
  show ?thesis
  proof (cases "X @ [47] = replicate (length (X @ [47])) 47")
    case True
    then have "fst (path_split p) = X @ [47]"
      unfolding path_split_def Let_def h0 by simp
    then show ?thesis using p by auto
  next
    case False
    then have f: "fst (path_split p) = rstrip_sep (X @ [47])"
      unfolding path_split_def Let_def h0 by simp
    obtain k where k: "X @ [47] = rstrip_sep (X @ [47]) @ replicate k 47"
      using rstrip_sep_decomp by blast
    have "k \<noteq> 0"
    proof
      assume "k = 0"
      with k have "rstrip_sep (X @ [47]) = X @ [47]" by simp
      then have "last (rstrip_sep (X @ [47])) = 47" by simp
      moreover have "rstrip_sep (X @ [47]) \<noteq> []" using assms f by simp
      ultimately show False using rstrip_sep_last by blast
    qed
    then obtain k' where k': "k = Suc k'" by (cases k) auto
    have "p = rstrip_sep (X @ [47]) @ (replicate k 47 @ t)"
      using p k by (metis append.assoc append_Cons append_Nil)
    then show ?thesis using f k' by auto
  qed
qed


lemma resolve_append:
  assumes "resolve r f' b loc cs = Inr y" and "f'" and "ds \<noteq> []"
    and "\<And>b'. resolve r f b' y ds = Inr z"
  shows "resolve r f b loc (cs @ ds) = Inr z"
  using assms
proof (induction r f' b loc cs rule: resolve.induct)
  case (1 r follow budget loc)
  then show ?case by simp
next
  case (2 r follow budget loc c cs)
  note f = \<open>follow\<close> and d = \<open>ds \<noteq> []\<close> and z = "2.prems"(4)
  from "2.prems"(1) show ?case
  proof (cases rule: resolve_step_cases)
    case (at_empty es)
    with "2.IH"(1) f d z show ?thesis by simp
  next
    case (at_dot es)
    with "2.IH"(2) f d z show ?thesis by simp
  next
    case (at_dotdot es)
    with "2.IH"(3) f d z show ?thesis by simp
  next
    case (at_file es)
    with "2.IH"(4) f d z show ?thesis by simp
  next
    case (at_dir es es')
    with "2.IH"(6) f d z show ?thesis by simp
  next
    case (at_link_last es t)
    with f show ?thesis by simp
  next
    case (at_link es t)
    with "2.IH"(5) [of "Dir es" es "Symlink t" t] f d z show ?thesis by simp
  qed
qed

lemma resolve_empty_component:
  "node_at r y = Some (Dir es) \<Longrightarrow> resolve r f b y [[]] = Inr y"
  by simp

lemma locate_prefix:
  assumes l: "locate fs f (h @ q) = Inr x" and h: "h \<noteq> []"
    and q: "take 1 q = [47] \<or> last h = 47"
  shows "\<exists>y es. locate fs True h = Inr y \<and> node_at (root fs) y = Some (Dir es)"
proof -
  let ?start = "if take 1 h = [47] then [] else cwd fs"
  have st: "(take 1 (h @ q) = [47]) = (take 1 h = [47])" using h by (cases h) auto
  from l h have r: "resolve (root fs) f 40 ?start (split_on 47 (h @ q)) = Inr x"
    unfolding locate_def st by (simp split: if_splits)
  show ?thesis
  proof (cases "last h = 47")
    case True
    with h obtain h' where h': "h = h' @ [47]" by (metis append_butlast_last_id)
    obtain d ds where dq: "split_on 47 q = d # ds"
      using split_on_nonempty [of 47 q] by (cases "split_on 47 q") auto
    have "split_on 47 (h @ q) = split_on 47 h' @ d # ds"
      using split_on_append_sep [of 47 h' q] by (simp add: h' dq)
    with r obtain y es where y: "resolve (root fs) True 40 ?start (split_on 47 h') = Inr y"
      and n: "node_at (root fs) y = Some (Dir es)"
      using resolve_prefix [of "root fs" f 40 ?start "split_on 47 h'" d ds x True] by auto
    have "resolve (root fs) True 40 ?start (split_on 47 h' @ [[]]) = Inr y"
      using y n by (intro resolve_append [where f' = True and y = y]) simp_all
    then have "locate fs True h = Inr y"
      using h by (simp add: locate_def h' split_on_snoc_sep)
    with n show ?thesis by blast
  next
    case False
    with q obtain q' where q': "q = 47 # q'" by (cases q) (auto split: if_splits)
    obtain d ds where dq: "split_on 47 q' = d # ds"
      using split_on_nonempty [of 47 q'] by (cases "split_on 47 q'") auto
    have "split_on 47 (h @ q) = split_on 47 h @ d # ds"
      using split_on_append_sep [of 47 h q'] by (simp add: q' dq)
    with r obtain y es where y: "resolve (root fs) True 40 ?start (split_on 47 h) = Inr y"
      and n: "node_at (root fs) y = Some (Dir es)"
      using resolve_prefix [of "root fs" f 40 ?start "split_on 47 h" d ds x True] by auto
    from y have "locate fs True h = Inr y" using h by (simp add: locate_def)
    with n show ?thesis by blast
  qed
qed

lemma create_present:
  assumes "locate fs f p = Inr x"
  shows "create fs p new = Inl FileExistsError"
proof -
  let ?start = "if take 1 p = [47] then [] else cwd fs"
  let ?cs = "split_on 47 p"
  from assms have p: "p \<noteq> []" by (auto simp: locate_def)
  with assms have r: "resolve (root fs) f 40 ?start ?cs = Inr x" by (simp add: locate_def)
  have cs: "?cs = butlast ?cs @ last ?cs # []"
    using split_on_nonempty [of 47 p] by simp
  from r obtain y es where y: "resolve (root fs) True 40 ?start (butlast ?cs) = Inr y"
    and n: "node_at (root fs) y = Some (Dir es)"
    and d: "last ?cs = [] \<or> last ?cs = str ''.'' \<or> last ?cs = str ''..'' \<or> map_of es (last ?cs) \<noteq> None"
    using resolve_prefix [of "root fs" f 40 ?start "butlast ?cs" "last ?cs" "[]" x True] cs
    by metis
  show ?thesis using p y n d by (auto simp: create_def Let_def)
qed


lemma exists_iff: "exists fs p = (\<exists>y. locate fs True p = Inr y)"
  by (cases "locate fs True p") (auto simp: exists_def)

lemma lexists_iff: "lexists fs p = (\<exists>y. locate fs False p = Inr y)"
  by (cases "locate fs False p") (auto simp: lexists_def)

lemma isdir_iff:
  "isdir fs p = (\<exists>y es. locate fs True p = Inr y \<and> node_at (root fs) y = Some (Dir es))"
  by (auto simp: isdir_def split: sum.splits option.splits node.splits)

lemma isdir_exists: "isdir fs p \<Longrightarrow> exists fs p"
  by (auto simp: isdir_iff exists_iff)

lemma exists_path_split_head:
  assumes "exists fs p" and "fst (path_split p) \<noteq> []"
  shows "exists fs (fst (path_split p))"
proof -
  obtain q where q: "p = fst (path_split p) @ q"
    "take 1 q = [47] \<or> last (fst (path_split p)) = 47"
    using path_split_head [OF assms(2)] by blast
  from assms(1) obtain x where "locate fs True (fst (path_split p) @ q) = Inr x"
    using q(1) by (auto simp: exists_iff)
  from locate_prefix [OF this assms(2) q(2)] show ?thesis by (auto simp: exists_iff)
qed

lemma exists_makedirs_split_head:
  assumes "exists fs name" and "fst (makedirs_split name) \<noteq> []"
  shows "exists fs (fst (makedirs_split name))"
proof (cases "snd (path_split name) = []")
  case False
  then show ?thesis using assms exists_path_split_head by (simp add: makedirs_split_def)
next
  case True
  then have m: "makedirs_split name = path_split (fst (path_split name))"
    by (simp add: makedirs_split_def)
  have "fst (path_split name) \<noteq> []"
  proof
    assume "fst (path_split name) = []"
    then have "fst (makedirs_split name) = fst (path_split [])" by (simp add: m)
    then show False using assms(2) by (simp add: path_split_def rfind_def)
  qed
  then have "exists fs (fst (path_split name))"
    using assms(1) exists_path_split_head by blast
  then show ?thesis using assms(2) exists_path_split_head by (simp add: m)
qed

lemma mkdir_present:
  assumes "exists fs name"
  shows "mkdir fs name = Inl FileExistsError"
proof (cases "rstrip_sep name = []")
  case True
  then show ?thesis using assms create_present by (auto simp: mkdir_def exists_iff)
next
  case False
  obtain k where k: "name = rstrip_sep name @ replicate k 47"
    using rstrip_sep_decomp by blast
  have "exists fs (rstrip_sep name)"
  proof (cases k)
    case 0
    with k assms show ?thesis by simp
  next
    case (Suc k')
    from assms obtain x where "locate fs True (rstrip_sep name @ replicate k 47) = Inr x"
      using k by (auto simp: exists_iff)
    from locate_prefix [OF this False] Suc show ?thesis by (auto simp: exists_iff)
  qed
  then show ?thesis using False create_present by (auto simp: mkdir_def exists_iff)
qed

lemma makedirs_present:
  assumes "isdir fs name"
  shows "makedirs fs name True = (Inr (), fs)"
proof -
  have e: "exists fs name" using assms by (rule isdir_exists)
  have leaf: "makedirs_leaf fs name True = (Inr (), fs)"
    using assms mkdir_present [OF e] by (simp add: makedirs_leaf_def)
  have "fst (makedirs_split name) = [] \<or> exists fs (fst (makedirs_split name))"
    using exists_makedirs_split_head [OF e] by blast
  then show ?thesis by (subst makedirs.simps) (auto simp: leaf)
qed


lemma join_nonempty: "a \<noteq> [] \<Longrightarrow> join a b \<noteq> []"
  by (auto simp: join_def)

lemma pdfname_props:
  assumes "47 \<notin> set ck"
  shows "47 \<notin> set (ck @ str ''.pdf'')" and "ck @ str ''.pdf'' \<noteq> []"
    and "ck @ str ''.pdf'' \<noteq> str ''.''" and "ck @ str ''.pdf'' \<noteq> str ''..''"
    and "take 1 (ck @ str ''.pdf'') \<noteq> [47]"
  using assms by (cases ck; auto simp: str_def)+

lemma join_name:
  assumes "d \<noteq> []" and "take 1 name \<noteq> [47]"
  shows "join d name = (if last d = 47 then d @ name else d @ 47 # name)"
  using assms by (simp add: join_def)

lemma lexists_join_isdir:
  assumes l: "lexists fs (join d name)" and d: "d \<noteq> []" and n: "take 1 name \<noteq> [47]"
  shows "isdir fs d"
proof -
  from l obtain x where x: "locate fs False (join d name) = Inr x" by (auto simp: lexists_iff)
  show ?thesis
  proof (cases "last d = 47")
    case True
    with x d n have "locate fs False (d @ name) = Inr x" by (simp add: join_name)
    from locate_prefix [OF this d] True show ?thesis by (auto simp: isdir_iff)
  next
    case False
    with x d n have "locate fs False (d @ 47 # name) = Inr x" by (simp add: join_name)
    from locate_prefix [OF this d] show ?thesis by (auto simp: isdir_iff)
  qed
qed

lemma tag_paper_present:
  assumes l: "lexists fs (join (join ck_tag_dir tag) (citation_key @ str ''.pdf''))"
    and t: "ck_tag_dir \<noteq> []" and c: "47 \<notin> set citation_key"
  shows "tag_paper fs ck_tag_dir ck_bib_dir citation_key tag = (Inr False, fs, [])"
proof -
  let ?d = "join ck_tag_dir tag"
  let ?n = "citation_key @ str ''.pdf''"
  have d: "?d \<noteq> []" using t by (rule join_nonempty)
  have "isdir fs ?d" using l d pdfname_props(5) [OF c] by (rule lexists_join_isdir)
  then have m: "makedirs fs ?d True = (Inr (), fs)" by (rule makedirs_present)
  from l obtain x where "locate fs False (join ?d ?n) = Inr x" by (auto simp: lexists_iff)
  then have "symlink fs (join ck_bib_dir ?n) (join ?d ?n) = Inl FileExistsError"
    unfolding symlink_def by (rule create_present)
  with m show ?thesis by (simp add: tag_paper_def Let_def)
qed


lemma growsD:
  assumes "grows r r'" and "node_at r loc = Some (Dir es)"
  obtains es' where "node_at r' loc = Some (Dir es')"
    and "\<And>c v. map_of es c = Some v \<Longrightarrow> \<exists>v'. map_of es' c = Some v' \<and> same_kind v v'"
  using assms unfolding grows_def by blast

lemma same_kind_simps [simp]:
  "same_kind File v' = (v' = File)"
  "same_kind (Symlink t) v' = (v' = Symlink t)"
  "same_kind (Dir es) v' = (\<exists>es'. v' = Dir es')"
  by (auto simp: same_kind_def split: node.splits)

lemma resolve_grows:
  assumes "resolve r f b loc cs = Inr y" and "grows r r'"
  shows "resolve r' f b loc cs = Inr y"
  using assms
proof (induction r f b loc cs rule: resolve.induct)
  case (1 r follow budget loc)
  then show ?case by simp
next
  case (2 r follow budget loc c cs)
  note g = \<open>grows r r'\<close>
  from "2.prems"(1) show ?case
  proof (cases rule: resolve_step_cases)
    case (at_empty es)
    from growsD [OF g at_empty(1)] obtain es' where n: "node_at r' loc = Some (Dir es')" by blast
    have "resolve r' follow budget loc cs = Inr y"
      using "2.IH"(1) [OF at_empty(1) refl at_empty(2) at_empty(3) g] .
    with n at_empty(2) show ?thesis by simp
  next
    case (at_dot es)
    from growsD [OF g at_dot(1)] obtain es' where n: "node_at r' loc = Some (Dir es')" by blast
    have "resolve r' follow budget loc cs = Inr y"
      using "2.IH"(2) [OF at_dot(1) refl at_dot(2) at_dot(3) at_dot(4) g] .
    with n at_dot(2,3) show ?thesis by simp
  next
    case (at_dotdot es)
    from growsD [OF g at_dotdot(1)] obtain es' where n: "node_at r' loc = Some (Dir es')" by blast
    have "resolve r' follow budget (butlast loc) cs = Inr y"
      using "2.IH"(3) [OF at_dotdot(1) refl at_dotdot(2) at_dotdot(3) at_dotdot(4) at_dotdot(5) g] .
    with n at_dotdot(2,3,4) show ?thesis by simp
  next
    case (at_file es)
    from growsD [OF g at_file(1)] obtain es' where n: "node_at r' loc = Some (Dir es')"
      and m: "\<And>c v. map_of es c = Some v \<Longrightarrow> \<exists>v'. map_of es' c = Some v' \<and> same_kind v v'"
      by blast
    from m [OF at_file(5)] have k: "map_of es' c = Some File" by simp
    have "resolve r' follow budget (loc @ [c]) cs = Inr y"
      using "2.IH"(4) [OF at_file(1) refl at_file(2) at_file(3) at_file(4) at_file(5) refl at_file(6) g] .
    with n k at_file(2,3,4) show ?thesis by simp
  next
    case (at_dir es es1)
    from growsD [OF g at_dir(1)] obtain es' where n: "node_at r' loc = Some (Dir es')"
      and m: "\<And>c v. map_of es c = Some v \<Longrightarrow> \<exists>v'. map_of es' c = Some v' \<and> same_kind v v'"
      by blast
    from m [OF at_dir(5)] obtain es1' where k: "map_of es' c = Some (Dir es1')" by auto
    have "resolve r' follow budget (loc @ [c]) cs = Inr y"
      using "2.IH"(6) [OF at_dir(1) refl at_dir(2) at_dir(3) at_dir(4) at_dir(5) refl at_dir(6) g] .
    with n k at_dir(2,3,4) show ?thesis by simp
  next
    case (at_link_last es t)
    from growsD [OF g at_link_last(1)] obtain es' where n: "node_at r' loc = Some (Dir es')"
      and m: "\<And>c v. map_of es c = Some v \<Longrightarrow> \<exists>v'. map_of es' c = Some v' \<and> same_kind v v'"
      by blast
    from m [OF at_link_last(5)] have k: "map_of es' c = Some (Symlink t)" by simp
    with n at_link_last(2,3,4,6,7,8) show ?thesis by simp
  next
    case (at_link es t)
    from growsD [OF g at_link(1)] obtain es' where n: "node_at r' loc = Some (Dir es')"
      and m: "\<And>c v. map_of es c = Some v \<Longrightarrow> \<exists>v'. map_of es' c = Some v' \<and> same_kind v v'"
      by blast
    from m [OF at_link(5)] have k: "map_of es' c = Some (Symlink t)" by simp
    have "resolve r' follow (budget - 1) (if take 1 t = [47] then [] else loc)
            (split_on 47 t @ cs) = Inr y"
      using "2.IH"(5) [OF at_link(1) refl at_link(2) at_link(3) at_link(4) at_link(5) refl
                          at_link(6) at_link(7) at_link(8) at_link(9) g] .
    with n k at_link(2,3,4,6,7,8) show ?thesis by auto
  qed
qed


lemma map_of_map_entry:
  "map_of (map (\<lambda>e. if fst e = c then (fst e, modify (snd e) Q f) else e) es) k =
     (if k = c then map_option (\<lambda>n. modify n Q f) (map_of es k) else map_of es k)"
  by (induction es) auto

lemma node_at_Cons_Some:
  assumes "node_at r (c # loc) = Some a"
  obtains es v where "r = Dir es" "map_of es c = Some v" "node_at v loc = Some a"
  using assms by (cases r) (auto split: option.splits)

lemma same_kind_refl: "same_kind v v"
  by (cases v) auto

lemma same_kind_modify: "same_kind v (modify v Q f)"
  by (cases v; cases Q) auto

lemma node_at_modify_append:
  assumes "node_at r loc = Some a"
  shows "\<exists>a'. node_at (modify r P (\<lambda>es. es @ [e])) loc = Some a' \<and>
           (a' = a \<or> (\<exists>Q. a' = modify a Q (\<lambda>es. es @ [e])))"
  using assms
proof (induction loc arbitrary: r P)
  case Nil
  then show ?case by auto
next
  case (Cons c loc)
  from Cons.prems obtain es v where r: "r = Dir es" and v: "map_of es c = Some v"
    and a: "node_at v loc = Some a"
    by (rule node_at_Cons_Some)
  show ?case
  proof (cases P)
    case Nil
    then show ?thesis using r v a by (simp add: map_add_Some_iff)
  next
    case (Cons c' P')
    show ?thesis
    proof (cases "c = c'")
      case True
      from Cons.IH [OF a, of P'] show ?thesis
        using r v True \<open>P = c' # P'\<close> by (simp add: map_of_map_entry)
    next
      case False
      then show ?thesis using r v a \<open>P = c' # P'\<close> by (simp add: map_of_map_entry)
    qed
  qed
qed

lemma grows_modify_append: "grows r (modify r P (\<lambda>es. es @ [e]))"
  unfolding grows_def
proof (intro allI impI)
  fix loc es
  assume n: "node_at r loc = Some (Dir es)"
  from node_at_modify_append [OF n, of P e] obtain a' where
    a': "node_at (modify r P (\<lambda>es. es @ [e])) loc = Some a'"
    and c: "a' = Dir es \<or> (\<exists>Q. a' = modify (Dir es) Q (\<lambda>es. es @ [e]))"
    by blast
  from c consider "a' = Dir es" | "a' = Dir (es @ [e])"
    | c' Q' where "a' = Dir (map (\<lambda>x. if fst x = c' then (fst x, modify (snd x) Q' (\<lambda>es. es @ [e])) else x) es)"
  proof (elim disjE exE)
    assume "a' = Dir es" then show ?thesis using that by blast
  next
    fix Q assume "a' = modify (Dir es) Q (\<lambda>es. es @ [e])"
    then show ?thesis using that by (cases Q) auto
  qed
  then show "\<exists>es'. node_at (modify r P (\<lambda>es. es @ [e])) loc = Some (Dir es') \<and>
          (\<forall>c v. map_of es c = Some v \<longrightarrow> (\<exists>v'. map_of es' c = Some v' \<and> same_kind v v'))"
  proof cases
    case 1
    then show ?thesis using a' same_kind_refl by blast
  next
    case 2
    then show ?thesis using a' same_kind_refl by (auto simp: map_add_Some_iff)
  next
    case (3 c' Q')
    then show ?thesis using a' same_kind_refl same_kind_modify
      by (auto simp: map_of_map_entry)
  qed
qed

lemma node_at_modify_target:
  assumes "node_at r P = Some (Dir es)"
  shows "node_at (modify r P f) P = Some (Dir (f es))"
  using assms
proof (induction P arbitrary: r)
  case Nil
  then show ?case by simp
next
  case (Cons c P)
  from Cons.prems obtain es0 v where r: "r = Dir es0" and v: "map_of es0 c = Some v"
    and a: "node_at v P = Some (Dir es)"
    by (rule node_at_Cons_Some)
  from Cons.IH [OF a] show ?case using r v by (simp add: map_of_map_entry)
qed


lemma create_InrD:
  assumes "create fs p new = Inr fs'"
  obtains P es where "p \<noteq> []"
    and "resolve (root fs) True 40 (if take 1 p = [47] then [] else cwd fs)
           (butlast (split_on 47 p)) = Inr P"
    and "node_at (root fs) P = Some (Dir es)"
    and "last (split_on 47 p) \<noteq> []" and "last (split_on 47 p) \<noteq> str ''.''"
    and "last (split_on 47 p) \<noteq> str ''..''"
    and "map_of es (last (split_on 47 p)) = None"
    and "fs' = fs\<lparr>root := modify (root fs) P (\<lambda>es. es @ [(last (split_on 47 p), new)])\<rparr>"
  using assms unfolding create_def Let_def
  by (auto split: if_splits sum.splits option.splits node.splits)

lemma resolve_last_entry:
  assumes "node_at r P = Some (Dir es)" and "c \<noteq> []" and "c \<noteq> str ''.''" and "c \<noteq> str ''..''"
    and "map_of es c = Some v"
  shows "resolve r False b P [c] = Inr (P @ [c])"
  using assms by (cases v) auto

lemma create_lexists:
  assumes "create fs p new = Inr fs'"
  shows "lexists fs' p"
proof -
  let ?start = "if take 1 p = [47] then [] else cwd fs"
  let ?cs = "split_on 47 p"
  from assms obtain P es where p: "p \<noteq> []"
    and r: "resolve (root fs) True 40 ?start (butlast ?cs) = Inr P"
    and n: "node_at (root fs) P = Some (Dir es)"
    and c: "last ?cs \<noteq> []" "last ?cs \<noteq> str ''.''" "last ?cs \<noteq> str ''..''"
    and fs': "fs' = fs\<lparr>root := modify (root fs) P (\<lambda>es. es @ [(last ?cs, new)])\<rparr>"
    by (rule create_InrD)
  let ?r' = "modify (root fs) P (\<lambda>es. es @ [(last ?cs, new)])"
  have r': "resolve ?r' True 40 ?start (butlast ?cs) = Inr P"
    using r grows_modify_append by (rule resolve_grows)
  have n': "node_at ?r' P = Some (Dir (es @ [(last ?cs, new)]))"
    using n by (rule node_at_modify_target)
  obtain v where v: "map_of (es @ [(last ?cs, new)]) (last ?cs) = Some v"
    by (cases "map_of es (last ?cs)") (auto simp: map_add_Some_iff)
  have e: "\<And>b'. resolve ?r' False b' P [last ?cs] = Inr (P @ [last ?cs])"
    using n' c v by (rule resolve_last_entry)
  have "resolve ?r' False 40 ?start (butlast ?cs @ [last ?cs]) = Inr (P @ [last ?cs])"
    using r' e by (intro resolve_append [where f' = True and y = P]) simp_all
  moreover have "butlast ?cs @ [last ?cs] = ?cs" using split_on_nonempty [of 47 p] by simp
  ultimately have "locate fs' False p = Inr (P @ [last ?cs])"
    using p by (auto simp: locate_def fs' split: if_splits)
  then show ?thesis by (simp add: lexists_iff)
qed

lemma tag_paper_twice:
  assumes r: "tag_paper fs ck_tag_dir ck_bib_dir citation_key tag = (Inr True, fs', out)"
    and t: "ck_tag_dir \<noteq> []" and c: "47 \<notin> set citation_key"
  shows "lexists fs' (join (join ck_tag_dir tag) (citation_key @ str ''.pdf''))"
    and "tag_paper fs' ck_tag_dir ck_bib_dir citation_key tag = (Inr False, fs', [])"
proof -
  let ?d = "join ck_tag_dir tag"
  let ?n = "citation_key @ str ''.pdf''"
  obtain m fs1 where m: "makedirs fs ?d True = (m, fs1)" by (cases "makedirs fs ?d True") auto
  from r m have "symlink fs1 (join ck_bib_dir ?n) (join ?d ?n) = Inr fs'"
    by (auto simp: tag_paper_def Let_def split: sum.splits if_splits)
  then show l: "lexists fs' (join ?d ?n)" unfolding symlink_def by (rule create_lexists)
  from l t c show "tag_paper fs' ck_tag_dir ck_bib_dir citation_key tag = (Inr False, fs', [])"
    by (rule tag_paper_present)
qed


section \<open>Dangling links\<close>

text \<open>
  C2: in \<open>fs_dangling\<close> the entry \<open>/t/x/C.pdf\<close> is a symbolic link whose target does
  not exist. \<open>untag_paper\<close> asks \<open>os.path.exists\<close>, which follows the link: it
  returns false and the link stays where it is.
\<close>

theorem C2_untag_paper_keeps_dangling_link:
  "islink fs_dangling (str ''/t/x/C.pdf'')
   \<and> exists fs_dangling (str ''/b/C.pdf'') = False
   \<and> untag_paper fs_dangling (str ''/t'') (str ''C'') (str ''x'') = (Inr False, fs_dangling)"
  by code_simp

text \<open>
  C3: with no file \<open>/b/C.pdf\<close>, \<open>tag_paper\<close> makes the link and returns true,
  \<open>untag_paper\<close> after it returns false and removes nothing, and the tag index still
  gives the tag \<open>x\<close> for \<open>C\<close>.
\<close>

theorem C3_tag_then_untag_leaves_tag:
  "tag_paper fs_no_pdf (str ''/t'') (str ''/b'') (str ''C'') (str ''x'') = (Inr True, fs_dangling, [])
   \<and> untag_paper fs_dangling (str ''/t'') (str ''C'') (str ''x'') = (Inr False, fs_dangling)
   \<and> find_tagged_pdfs 3 fs_dangling (str ''/t'') = Some (Inr [(str ''C'', [str ''x''])])"
  by code_simp

end
